theory Spec2Isabelle
  imports Main "HOL-Library.AList" "HOL-Library.Multiset"
begin

section \<open>Data model of \<open>Chapter 8/showtime.js\<close>\<close>

text \<open>
  A transaction input or output is an object with a \<open>value\<close> field, a transaction has
  the arrays \<open>inputs\<close> and \<open>outputs\<close>, a block has \<open>hash\<close>, \<open>prev\<close>, \<open>height\<close> and the
  array \<open>txs\<close>. Satoshi amounts are JavaScript Numbers holding integers; they are modelled
  as \<open>int\<close> (double arithmetic on integers below \<open>2^53\<close> is exact). Heights are
  non-negative integers, modelled as \<open>nat\<close>. Hashes are strings.
\<close>

record txio =
  "value" :: int

record tx =
  inputs :: "txio list"
  outputs :: "txio list"

record block =
  hash :: string
  prev :: string
  height :: nat
  txs :: "tx list"

text \<open>
  \<open>getSubsidy\<close> returns a Number on one path and a BigInt on the other, and JavaScript
  keeps the two apart: \<open>+\<close> between a BigInt and a Number throws a TypeError, and
  \<open>===\<close> between them is false. Every exception the modelled code can throw (mixing
  BigInt and Number, reading a property of \<open>undefined\<close>, \<open>reduce\<close> of an empty array
  with no initial value) is a TypeError.
\<close>

datatype jsnum = Number int | BigInt int

datatype error = TypeError

fun jsnum_int :: "jsnum \<Rightarrow> int" where
  "jsnum_int (Number n) = n"
| "jsnum_int (BigInt n) = n"

fun js_add :: "jsnum \<Rightarrow> jsnum \<Rightarrow> error + jsnum" where
  "js_add (Number a) (Number b) = Inr (Number (a + b))"
| "js_add (BigInt a) (BigInt b) = Inr (BigInt (a + b))"
| "js_add (Number a) (BigInt b) = Inl TypeError"
| "js_add (BigInt a) (Number b) = Inl TypeError"

section \<open>Fees, subsidy and the coinbase rule\<close>

text \<open>\<open>getTxFee\<close>: start from 0, add every input value, then subtract every output value.\<close>

definition getTxFee :: "tx \<Rightarrow> int" where
  "getTxFee t =
     fold (\<lambda>output fee. fee - value output) (outputs t)
       (fold (\<lambda>input fee. fee + value input) (inputs t) 0)"

text \<open>
  \<open>getSubsidy\<close>: \<open>halvings = BigInt(Math.floor(height / 210000))\<close>; from 64 halvings on
  the function returns the BigInt \<open>0n\<close>; otherwise it shifts the BigInt 5000000000 right by
  \<open>halvings\<close> bits and converts the result to a Number. (For an integer height below
  \<open>2^53\<close> the floor of the floating-point quotient is the integer quotient: a quotient
  that is not an integer lies at least \<open>1/210000\<close> below the next one, more than half
  the spacing of doubles below \<open>2^36\<close>.)
\<close>

definition getSubsidy :: "nat \<Rightarrow> jsnum" where
  "getSubsidy h =
     (let halvings = h div 210000
      in if halvings \<ge> 64 then BigInt 0
         else Number (drop_bit halvings (5000000000 :: int)))"

text \<open>
  \<open>validateBlock\<close>: the subsidy, then the fees of \<open>txs[1..]\<close>, then
  \<open>subsidy + fee === txs[0].outputs[0].value\<close>. The left operand of \<open>===\<close> is evaluated
  first, so the addition throws before the coinbase is read; reading \<open>txs[0]\<close> of an empty
  array or \<open>outputs[0]\<close> of an empty array gives \<open>undefined\<close>, whose property access throws.
\<close>

definition validateBlock :: "block \<Rightarrow> error + bool" where
  "validateBlock b =
     (let subsidy = getSubsidy (height b);
          fee = fold (\<lambda>t fee. fee + getTxFee t) (drop 1 (txs b)) 0
      in case js_add subsidy (Number fee) of
           Inl e \<Rightarrow> Inl e
         | Inr expected \<Rightarrow>
             (case txs b of
                [] \<Rightarrow> Inl TypeError
              | coinbase # _ \<Rightarrow>
                  (case outputs coinbase of
                     [] \<Rightarrow> Inl TypeError
                   | out0 # _ \<Rightarrow> Inr (expected = Number (value out0)))))"

section \<open>The scan over heights\<close>

text \<open>
  The state of \<open>showtime\<close>: \<open>tips\<close> is an object used as a dictionary from hash to block,
  kept here as an association list in enumeration order (for keys that are not array
  indices, as hashes are, \<open>Object.values\<close> enumerates in insertion order; assigning an
  existing key keeps its place, \<open>delete\<close> removes the entry); \<open>prevs\<close> is a dictionary
  from hash to parent hash, only ever read by key; \<open>invalid\<close> is an array.
\<close>

record state =
  tips :: "(string \<times> block) list"
  prevs :: "string \<rightharpoonup> string"
  invalid :: "string list"

text \<open>
  The node behind \<open>Bitcoin.rpc\<close> is outside the repository; it is a parameter:
  \<open>getinfo_blocks\<close> is \<open>rpc("getinfo")["blocks"]\<close>, the other two fields are the calls
  \<open>rpc("getblocksbyheight", h)\<close> and \<open>rpc("getblock", hash)\<close>.
\<close>

record rpc =
  getinfo_blocks :: nat
  getblocksbyheight :: "nat \<Rightarrow> string list"
  getblock :: "string \<Rightarrow> block"

text \<open>
  The body of the \<open>for\<close> loop, for one candidate hash. \<open>||\<close> short-circuits:
  \<open>validateBlock\<close> runs only when the parent is not in \<open>invalid\<close>. A stored block is an
  object, hence truthy, so \<open>if (tips[prev])\<close> tests the presence of the key. (Hashes
  are taken not to be names of properties that every object inherits, such as
  \<open>constructor\<close>, for which a lookup in an empty object finds something.)
\<close>

definition processCandidate :: "rpc \<Rightarrow> string \<Rightarrow> state \<Rightarrow> error + state" where
  "processCandidate node bhash st =
     (let b = getblock node bhash
      in if prev b \<in> set (invalid st) then Inr (st\<lparr>invalid := invalid st @ [bhash]\<rparr>)
         else case validateBlock b of
                Inl e \<Rightarrow> Inl e
              | Inr ok \<Rightarrow>
                  if \<not> ok then Inr (st\<lparr>invalid := invalid st @ [bhash]\<rparr>)
                  else
                    let tips1 = (if map_of (tips st) (prev b) \<noteq> None
                                 then AList.delete (prev b) (tips st) else tips st)
                    in Inr (st\<lparr>tips := AList.update (hash b) b tips1,
                                prevs := (prevs st)(bhash \<mapsto> prev b)\<rparr>))"

fun processCandidates :: "rpc \<Rightarrow> string list \<Rightarrow> state \<Rightarrow> error + state" where
  "processCandidates node [] st = Inr st"
| "processCandidates node (bhash # rest) st =
     (case processCandidate node bhash st of
        Inl e \<Rightarrow> Inl e
      | Inr st' \<Rightarrow> processCandidates node rest st')"

text \<open>The \<open>while (height <= last)\<close> loop.\<close>

function scan :: "rpc \<Rightarrow> nat \<Rightarrow> nat \<Rightarrow> state \<Rightarrow> error + state" where
  "scan node h last_height st =
     (if h \<le> last_height
      then (case processCandidates node (getblocksbyheight node h) st of
              Inl e \<Rightarrow> Inl e
            | Inr st' \<Rightarrow> scan node (h + 1) last_height st')
      else Inr st)"
  by pat_completeness auto
termination
  by (relation "measure (\<lambda>(node, h, last_height, st). Suc last_height - h)") auto

declare scan.simps [simp del]

section \<open>Selecting the best tip and rebuilding its chain\<close>

text \<open>
  \<open>Array.prototype.reduce\<close> without an initial value: a TypeError on the empty array,
  otherwise the first element is the accumulator and the callback folds in the rest,
  left to right. The callback of \<open>showtime\<close> is \<open>higher\<close>.
\<close>

definition reduce :: "('a \<Rightarrow> 'a \<Rightarrow> 'a) \<Rightarrow> 'a list \<Rightarrow> error + 'a" where
  "reduce f xs = (case xs of [] \<Rightarrow> Inl TypeError | x # rest \<Rightarrow> Inr (foldl f x rest))"

definition higher :: "block \<Rightarrow> block \<Rightarrow> block" where
  "higher a b = (if height a > height b then a else b)"

text \<open>
  The loop \<open>while (prevs[best_hash])\<close>: it goes on while the entry exists and is truthy
  (a non-empty string), pushing each parent hash on \<open>valid\<close>. Nothing bounds it when the
  parent links form a cycle, so the result is optional: \<open>None\<close> is a loop that never ends.
\<close>

partial_function (option) walk ::
  "(string \<rightharpoonup> string) \<Rightarrow> string \<Rightarrow> string list \<Rightarrow> string list option" where
  "walk ps best_hash valid =
     (case ps best_hash of
        None \<Rightarrow> Some valid
      | Some p \<Rightarrow> if p = [] then Some valid else walk ps p (valid @ [p]))"

text \<open>Phases 2 and 3 of \<open>showtime\<close>, on the state the scan has left.\<close>

definition selectBest :: "state \<Rightarrow> (error + string list \<times> string list) option" where
  "selectBest st =
     (case reduce higher (map snd (tips st)) of
        Inl e \<Rightarrow> Some (Inl e)
      | Inr best \<Rightarrow>
          (case walk (prevs st) (hash best) [hash best] of
             None \<Rightarrow> None
           | Some valid \<Rightarrow> Some (Inr (rev valid, invalid st))))"

definition showtime :: "rpc \<Rightarrow> (error + string list \<times> string list) option" where
  "showtime node =
     (case scan node 6929851 (getinfo_blocks node)
             \<lparr>tips = [], prevs = Map.empty, invalid = []\<rparr> of
        Inl e \<Rightarrow> Some (Inl e)
      | Inr st \<Rightarrow> selectBest st)"

section \<open>The two outcomes of a candidate\<close>

text \<open>
  The two ways the loop body changes the state: a rejected candidate is pushed on
  \<open>invalid\<close>; an accepted one replaces its parent in \<open>tips\<close> and is recorded in \<open>prevs\<close>.
  (\<open>delete\<close> of an absent key changes nothing, so the test around it is dropped here;
  \<open>processCandidate_cases\<close> shows the loop body does exactly one of the two.)
\<close>

definition rejected :: "string \<Rightarrow> state \<Rightarrow> state" where
  "rejected bhash st = st\<lparr>invalid := invalid st @ [bhash]\<rparr>"

definition accepted :: "string \<Rightarrow> block \<Rightarrow> state \<Rightarrow> state" where
  "accepted bhash b st =
     st\<lparr>tips := AList.update (hash b) b (AList.delete (prev b) (tips st)),
        prevs := (prevs st)(bhash \<mapsto> prev b)\<rparr>"

section \<open>A small node with a fork, used to exercise the theorems\<close>

text \<open>
  Heights 6929851 to 6929853 lie in era 32, where the subsidy is 1 satoshi. Block \<open>a\<close>
  (parent \<open>g\<close>, below the scanned range) has three children: \<open>b1\<close> (one transaction of
  fee 500, coinbase 501), \<open>b2\<close> (coinbase 1) and \<open>x\<close> (coinbase 2: one satoshi too many).
  At the next height \<open>c\<close> extends \<open>b1\<close> and \<open>y\<close> extends the invalid \<open>x\<close>.
\<close>

definition ex_coinbase :: "int \<Rightarrow> tx" where
  "ex_coinbase v = \<lparr>inputs = [], outputs = [\<lparr>value = v\<rparr>]\<rparr>"

definition ex_getblock :: "string \<Rightarrow> block" where
  "ex_getblock h =
     \<lparr>hash = h,
      prev = (if h = ''a'' then ''g'' else if h = ''c'' then ''b1''
              else if h = ''y'' then ''x'' else ''a''),
      height = (if h = ''a'' then 6929851
                else if h = ''c'' \<or> h = ''y'' then 6929853 else 6929852),
      txs = (if h = ''b1''
             then [ex_coinbase 501,
                   \<lparr>inputs = [\<lparr>value = 1500\<rparr>], outputs = [\<lparr>value = 1000\<rparr>]\<rparr>]
             else if h = ''x'' then [ex_coinbase 2] else [ex_coinbase 1])\<rparr>"

definition ex_node :: rpc where
  "ex_node =
     \<lparr>getinfo_blocks = 6929853,
      getblocksbyheight = (\<lambda>h. if h = 6929851 then [''a'']
                                else if h = 6929852 then [''b1'', ''x'', ''b2'']
                                else if h = 6929853 then [''y'', ''c''] else []),
      getblock = ex_getblock\<rparr>"

definition ex_state_a :: state where
  "ex_state_a = \<lparr>tips = [(''a'', ex_getblock ''a'')], prevs = [''a'' \<mapsto> ''g''], invalid = []\<rparr>"

section \<open>Candidates that cannot be accepted\<close>

text \<open>
  The test of the loop body that sends a candidate to \<open>invalid\<close>: its parent is already
  there, or its own coinbase check is false.
\<close>

definition doomed :: "rpc \<Rightarrow> string \<Rightarrow> state \<Rightarrow> bool" where
  "doomed node bhash st \<longleftrightarrow>
     prev (getblock node bhash) \<in> set (invalid st)
     \<or> validateBlock (getblock node bhash) = Inr False"

section \<open>Notions used to state the properties\<close>

text \<open>
  The tie-break as the specification words it: the earliest tip, in enumeration order,
  whose height is the maximum over all tips.
\<close>

definition spec_first_maximal :: "block list \<Rightarrow> block option" where
  "spec_first_maximal bs = find (\<lambda>b. height b = Max (height ` set bs)) bs"

text \<open>
  A chain of parent links, oldest block first: each element but the first has the element
  before it as its entry in the parent index.
\<close>

fun lineage :: "(string \<rightharpoonup> string) \<Rightarrow> string list \<Rightarrow> bool" where
  "lineage ps [] = False"
| "lineage ps [c] = True"
| "lineage ps (a # b # rest) = (ps b = Some a \<and> lineage ps (b # rest))"

text \<open>
  A node whose data is consistent: it returns for each hash the block of that hash, and
  every candidate it lists at a height has that height, a non-empty parent hash, and a
  parent one height lower.
\<close>

definition well_formed_node :: "rpc \<Rightarrow> bool" where
  "well_formed_node node \<longleftrightarrow>
     (\<forall>x. hash (getblock node x) = x)
     \<and> (\<forall>h x. x \<in> set (getblocksbyheight node h) \<longrightarrow>
            height (getblock node x) = h
          \<and> prev (getblock node x) \<noteq> []
          \<and> Suc (height (getblock node (prev (getblock node x)))) = h)"

text \<open>
  What the three containers hold, regardless of order: \<open>tips\<close> and \<open>prevs\<close> as mappings,
  \<open>invalid\<close> as a set. \<open>verdict\<close> is the test of the loop body on these contents
  (\<open>Inr True\<close> accepts, \<open>Inr False\<close> rejects, \<open>Inl\<close> is the exception of
  \<open>validateBlock\<close>), \<open>step_contents\<close> the effect of the loop body on them, and
  \<open>step_state\<close> the loop body itself after a possible earlier failure.
\<close>

type_synonym contents = "(string \<rightharpoonup> block) \<times> (string \<rightharpoonup> string) \<times> string set"

definition contents_of :: "state \<Rightarrow> contents" where
  "contents_of st = (map_of (tips st), prevs st, set (invalid st))"

definition verdict :: "rpc \<Rightarrow> string \<Rightarrow> string set \<Rightarrow> error + bool" where
  "verdict node h I =
     (if prev (getblock node h) \<in> I then Inr False else validateBlock (getblock node h))"

definition step_contents :: "rpc \<Rightarrow> string \<Rightarrow> error + contents \<Rightarrow> error + contents" where
  "step_contents node h r =
     (case r of
        Inl e \<Rightarrow> Inl e
      | Inr (T, P, I) \<Rightarrow>
          (case verdict node h I of
             Inl e \<Rightarrow> Inl e
           | Inr ok \<Rightarrow>
               Inr (if ok
                    then (T(prev (getblock node h) := None,
                            hash (getblock node h) \<mapsto> getblock node h),
                          P(h \<mapsto> prev (getblock node h)), I)
                    else (T, P, insert h I))))"

definition step_state :: "rpc \<Rightarrow> string \<Rightarrow> error + state \<Rightarrow> error + state" where
  "step_state node h r = (case r of Inl e \<Rightarrow> Inl e | Inr st \<Rightarrow> processCandidate node h st)"

section \<open>Example tips and final states\<close>

text \<open>
  \<open>ex_tip\<close> is a bare tip. \<open>ex_full_node\<close> serves heights 5 to 7: \<open>s5\<close> and \<open>t1\<close>
  (both children of \<open>s4\<close>) at height 5, \<open>s6\<close> (parent \<open>s5\<close>) at height 6 and \<open>t2\<close>
  (parent \<open>s6\<close>) at height 7, each with the coinbase of era 0. \<open>ex_full_final\<close> is
  the state the loop over heights 5 to 7 leaves on it: tips \<open>t1\<close> and \<open>t2\<close>, and a
  parent entry for every accepted block. \<open>ex_bad_node\<close> serves a single candidate, the
  invalid block \<open>x\<close>.
\<close>

definition ex_tip :: "string \<Rightarrow> string \<Rightarrow> nat \<Rightarrow> block" where
  "ex_tip h p n = \<lparr>hash = h, prev = p, height = n, txs = []\<rparr>"

definition ex_full_getblock :: "string \<Rightarrow> block" where
  "ex_full_getblock h =
     \<lparr>hash = h,
      prev = (if h = ''s5'' \<or> h = ''t1'' then ''s4'' else if h = ''s6'' then ''s5''
              else if h = ''t2'' then ''s6'' else ''s3''),
      height = (if h = ''s5'' \<or> h = ''t1'' then 5 else if h = ''s6'' then 6
                else if h = ''t2'' then 7 else 4),
      txs = [ex_coinbase 5000000000]\<rparr>"

definition ex_full_node :: rpc where
  "ex_full_node =
     \<lparr>getinfo_blocks = 7,
      getblocksbyheight = (\<lambda>h. if h = 5 then [''s5'', ''t1''] else if h = 6 then [''s6'']
                                else if h = 7 then [''t2''] else []),
      getblock = ex_full_getblock\<rparr>"

definition ex_full_final :: state where
  "ex_full_final =
     \<lparr>tips = [(''t1'', ex_full_getblock ''t1''), (''t2'', ex_full_getblock ''t2'')],
      prevs = [''s5'' \<mapsto> ''s4'', ''t1'' \<mapsto> ''s4'', ''s6'' \<mapsto> ''s5'', ''t2'' \<mapsto> ''s6''],
      invalid = []\<rparr>"

definition ex_bad_node :: rpc where
  "ex_bad_node = \<lparr>getinfo_blocks = 6929851,
                  getblocksbyheight = (\<lambda>h. if h = 6929851 then [''x''] else []),
                  getblock = ex_getblock\<rparr>"

section \<open>Properties of the fee and subsidy functions\<close>

lemma getTxFee_sum:
  "getTxFee t = sum_list (map value (inputs t)) - sum_list (map value (outputs t))"
proof -
  have a: "fold (\<lambda>input fee. fee + value input) xs a = a + sum_list (map value xs)"
    for xs :: "txio list" and a :: int
    by (induction xs arbitrary: a) simp_all
  have b: "fold (\<lambda>output fee. fee - value output) xs a = a - sum_list (map value xs)"
    for xs :: "txio list" and a :: int
    by (induction xs arbitrary: a) simp_all
  show ?thesis by (simp add: getTxFee_def a b)
qed

lemma fold_fee_sum:
  "fold (\<lambda>t fee. fee + getTxFee t) ts a = a + sum_list (map getTxFee ts)"
  by (induction ts arbitrary: a) simp_all

lemma getSubsidy_low:
  "h div 210000 < 64 \<Longrightarrow> getSubsidy h = Number (5000000000 div 2 ^ (h div 210000))"
  by (simp add: getSubsidy_def drop_bit_eq_div)

lemma getSubsidy_high: "64 \<le> h div 210000 \<Longrightarrow> getSubsidy h = BigInt 0"
  by (simp add: getSubsidy_def)

lemma subsidy_int:
  "jsnum_int (getSubsidy h) =
     (if 64 \<le> h div 210000 then 0 else 5000000000 div 2 ^ (h div 210000))"
  by (simp add: getSubsidy_def drop_bit_eq_div)

lemma subsidy_values:
  "getSubsidy 0 = Number 5000000000"
  "getSubsidy 209999 = Number 5000000000"
  "getSubsidy 210000 = Number 2500000000"
  "getSubsidy 420000 = Number 1250000000"
  "getSubsidy 13440000 = BigInt 0"
  by (simp_all add: getSubsidy_def drop_bit_eq_div)

lemma subsidy_mono:
  assumes le: "h \<le> h'"
  shows "jsnum_int (getSubsidy h') \<le> jsnum_int (getSubsidy h)"
proof -
  from le have e: "h div 210000 \<le> h' div 210000" by (rule div_le_mono)
  have pos: "0 \<le> (5000000000::int) div 2 ^ n" for n :: nat
    by (simp add: pos_imp_zdiv_nonneg_iff)
  show ?thesis
  proof (cases "64 \<le> h' div 210000")
    case True
    then show ?thesis using pos by (simp add: subsidy_int)
  next
    case False
    then have "\<not> 64 \<le> h div 210000" using e by simp
    moreover have "(5000000000::int) div 2 ^ (h' div 210000) \<le> 5000000000 div 2 ^ (h div 210000)"
      by (rule zdiv_mono2) (use e in \<open>simp_all add: power_increasing\<close>)
    ultimately show ?thesis using False by (simp add: subsidy_int)
  qed
qed

lemma subsidy_halves:
  "jsnum_int (getSubsidy (h + 210000)) = jsnum_int (getSubsidy h) div 2"
proof -
  have d: "(h + 210000) div 210000 = Suc (h div 210000)" by simp
  have big: "(5000000000::int) div 2 ^ 63 = 0" by simp
  show ?thesis
  proof (cases "64 \<le> h div 210000")
    case True
    then show ?thesis by (simp add: subsidy_int d)
  next
    case False
    show ?thesis
    proof (cases "h div 210000 = 63")
      case True
      then show ?thesis using big by (simp add: subsidy_int d)
    next
      case below: False
      with False have n: "\<not> 64 \<le> Suc (h div 210000)" by simp
      have half: "(a::int) div 2 ^ Suc n = a div 2 ^ n div 2" for a n
      proof -
        have "a div 2 ^ Suc n = a div (2 ^ n * 2)" by (simp only: power_Suc2)
        also have "\<dots> = a div 2 ^ n div 2" by (rule zdiv_zmult2_eq) simp
        finally show ?thesis .
      qed
      have "jsnum_int (getSubsidy (h + 210000)) = 5000000000 div 2 ^ Suc (h div 210000)"
        using n by (simp only: subsidy_int d if_False)
      also have "\<dots> = 5000000000 div 2 ^ (h div 210000) div 2"
        by (rule half)
      also have "\<dots> = jsnum_int (getSubsidy h) div 2"
        using False by (simp only: subsidy_int if_False)
      finally show ?thesis .
    qed
  qed
qed

text \<open>
  The schedule on the integer the result denotes: with \<open>era = h div 210000\<close> it is 0
  from era 64 on and \<open>5000000000 div 2 ^ era\<close> below; it is 5000000000 at heights 0 and
  209999, 2500000000 at 210000, 1250000000 at 420000 and 0 at 13440000; it never grows
  with the height, and 210000 blocks later it is half (rounded down) of what it was.
  Below era 64 the result is the Number of that value.
\<close>

lemma getSubsidy_integer_schedule:
  "jsnum_int (getSubsidy h) =
     (if 64 \<le> h div 210000 then 0 else 5000000000 div 2 ^ (h div 210000))
   \<and> (h div 210000 < 64 \<longrightarrow> getSubsidy h = Number (5000000000 div 2 ^ (h div 210000)))
   \<and> jsnum_int (getSubsidy 0) = 5000000000
   \<and> jsnum_int (getSubsidy 209999) = 5000000000
   \<and> jsnum_int (getSubsidy 210000) = 2500000000
   \<and> jsnum_int (getSubsidy 420000) = 1250000000
   \<and> jsnum_int (getSubsidy 13440000) = 0
   \<and> (\<forall>h'. h \<le> h' \<longrightarrow> jsnum_int (getSubsidy h') \<le> jsnum_int (getSubsidy h))
   \<and> jsnum_int (getSubsidy (h + 210000)) = jsnum_int (getSubsidy h) div 2"
  using subsidy_int [of h] getSubsidy_low [of h] subsidy_mono [of h] subsidy_halves [of h]
  by (simp add: subsidy_values)

text \<open>
  Claim C2. The claim asks that \<open>getSubsidy\<close> return 0 from era 64 on, as it returns the
  Number \<open>5000000000 div 2 ^ era\<close> below. From era 64 on the function returns the BigInt
  \<open>0n\<close> instead, which is not the Number 0: \<open>0n === 0\<close> is false and \<open>0n + fee\<close> throws.
  Below era 64, and on integer values throughout, the schedule is as claimed
  (\<open>getSubsidy_low\<close>, \<open>subsidy_values\<close>, \<open>getSubsidy_integer_schedule\<close>).
\<close>

theorem getSubsidy_returns_bigint_from_era_64:
  "64 \<le> h div 210000 \<Longrightarrow> getSubsidy h = BigInt 0 \<and> getSubsidy h \<noteq> Number 0"
  by (simp add: getSubsidy_def)

theorem getSubsidy_returns_bigint_from_era_64_witness:
  "(64::nat) \<le> 13440000 div 210000
   \<and> getSubsidy 13440000 = BigInt 0 \<and> getSubsidy 13440000 \<noteq> Number 0"
  using getSubsidy_returns_bigint_from_era_64 [of 13440000] by simp

section \<open>Properties of \<open>validateBlock\<close>\<close>

lemma validateBlock_below_era_64:
  assumes "height b div 210000 < 64"
    and "txs b = coinbase # rest"
    and "outputs coinbase = out0 # outs"
  shows "validateBlock b =
           Inr (value out0 = 5000000000 div 2 ^ (height b div 210000)
                               + sum_list (map getTxFee rest))"
  using assms by (auto simp: validateBlock_def getSubsidy_low fold_fee_sum)

lemma validateBlock_height_0_fee_500:
  assumes "height b = 0"
    and "txs b = [coinbase, t]"
    and "getTxFee t = 500"
    and "outputs coinbase = out0 # outs"
  shows "validateBlock b = Inr (value out0 = 5000000500)"
  using assms validateBlock_below_era_64 [of b coinbase "[t]" out0 outs] by auto

text \<open>
  Claim C1. The claim asks that \<open>validateBlock\<close> return true exactly when the coinbase
  output equals subsidy plus fees, at every height. That holds below height 13440000
  (\<open>validateBlock_below_era_64\<close>, \<open>validateBlock_height_0_fee_500\<close>). At height 13440000
  \<open>getSubsidy\<close> returns the BigInt \<open>0n\<close>, and \<open>0n + fee\<close> throws: for the block with no
  fee-paying transaction and a coinbase output of 0, which equals subsidy 0 plus fees 0,
  \<open>validateBlock\<close> raises a TypeError instead of returning true.
\<close>

theorem validateBlock_throws_on_matching_coinbase:
  "validateBlock \<lparr>hash = ''c1'', prev = ''c0'', height = 13440000,
                   txs = [\<lparr>inputs = [], outputs = [\<lparr>value = 0\<rparr>]\<rparr>]\<rparr> = Inl TypeError
   \<and> jsnum_int (getSubsidy 13440000)
       + sum_list (map getTxFee (drop 1 [\<lparr>inputs = [], outputs = [\<lparr>value = 0\<rparr>]\<rparr>])) = 0"
  by (simp add: validateBlock_def getSubsidy_def)

text \<open>
  Claim C3. The claim asks that \<open>validateBlock\<close> always evaluate to a boolean, also from
  height 13440000 on. From era 64 on it never does: whatever the block, the addition of
  the BigInt subsidy and the Number fee throws a TypeError.
\<close>

theorem validateBlock_throws_from_era_64:
  "64 \<le> height b div 210000 \<Longrightarrow> validateBlock b = Inl TypeError"
  by (simp add: validateBlock_def getSubsidy_high)

theorem validateBlock_throws_from_era_64_witness:
  "(64::nat) \<le> 13440000 div 210000
   \<and> validateBlock \<lparr>hash = ''b1'', prev = ''b0'', height = 13440000,
        txs = [\<lparr>inputs = [], outputs = [\<lparr>value = 500\<rparr>]\<rparr>,
               \<lparr>inputs = [\<lparr>value = 1500\<rparr>], outputs = [\<lparr>value = 1000\<rparr>]\<rparr>]\<rparr>
       = Inl TypeError"
  using validateBlock_throws_from_era_64
          [of "\<lparr>hash = ''b1'', prev = ''b0'', height = 13440000,
                txs = [\<lparr>inputs = [], outputs = [\<lparr>value = 500\<rparr>]\<rparr>,
                       \<lparr>inputs = [\<lparr>value = 1500\<rparr>], outputs = [\<lparr>value = 1000\<rparr>]\<rparr>]\<rparr>"]
  by simp

section \<open>One step of the scan\<close>

lemma delete_if_present:
  "(if map_of al k \<noteq> None then AList.delete k al else al) = AList.delete k al"
  by (simp add: map_of_eq_None_iff)

lemma processCandidate_cases:
  "processCandidate node bhash st =
     (let b = getblock node bhash
      in if prev b \<in> set (invalid st) then Inr (rejected bhash st)
         else case validateBlock b of
                Inl e \<Rightarrow> Inl e
              | Inr ok \<Rightarrow> Inr (if ok then accepted bhash b st else rejected bhash st))"
  unfolding processCandidate_def delete_if_present rejected_def accepted_def
  by (simp add: Let_def split: sum.split)

lemma processCandidate_rejects:
  "prev (getblock node bhash) \<in> set (invalid st)
     \<or> validateBlock (getblock node bhash) = Inr False
   \<Longrightarrow> processCandidate node bhash st = Inr (rejected bhash st)"
  by (auto simp: processCandidate_cases Let_def)

lemma processCandidate_accepts:
  "prev (getblock node bhash) \<notin> set (invalid st)
   \<Longrightarrow> validateBlock (getblock node bhash) = Inr True
   \<Longrightarrow> processCandidate node bhash st = Inr (accepted bhash (getblock node bhash) st)"
  by (simp add: processCandidate_cases Let_def)

lemma processCandidate_Inr:
  assumes "processCandidate node bhash st = Inr st'"
  shows "(prev (getblock node bhash) \<in> set (invalid st)
            \<or> validateBlock (getblock node bhash) = Inr False) \<and> st' = rejected bhash st
         \<or> prev (getblock node bhash) \<notin> set (invalid st)
            \<and> validateBlock (getblock node bhash) = Inr True
            \<and> st' = accepted bhash (getblock node bhash) st"
  using assms by (auto simp: processCandidate_cases Let_def split: if_splits sum.splits)

lemma accepted_fields:
  "invalid (accepted bhash b st) = invalid st"
  "prevs (accepted bhash b st) = (prevs st)(bhash \<mapsto> prev b)"
  "map_of (tips (accepted bhash b st)) = (map_of (tips st))(prev b := None, hash b \<mapsto> b)"
  by (simp_all add: accepted_def update_conv' delete_conv')

lemma accepted_tips:
  "tips (accepted bhash b st) = AList.update (hash b) b (AList.delete (prev b) (tips st))"
  by (simp add: accepted_def)

lemma rejected_fields:
  "invalid (rejected bhash st) = invalid st @ [bhash]"
  "prevs (rejected bhash st) = prevs st"
  "tips (rejected bhash st) = tips st"
  by (simp_all add: rejected_def)

lemma accepted_distinct:
  "distinct (map fst (tips st)) \<Longrightarrow> distinct (map fst (tips (accepted bhash b st)))"
  by (simp add: accepted_tips distinct_update distinct_delete)

text \<open>
  Claim C10. A step of the loop that returns changes the state minimally. If the
  candidate is rejected (its parent is in \<open>invalid\<close>, or \<open>validateBlock\<close> is false),
  \<open>tips\<close> and \<open>prevs\<close> are unchanged and the candidate's hash is appended to \<open>invalid\<close>.
  If it is accepted, \<open>invalid\<close> is unchanged, \<open>tips\<close> gains the entry keyed by the block's
  hash and loses at most the entry keyed by the block's parent, every other entry being
  preserved, and \<open>prevs\<close> gains the entry for the candidate's hash and is otherwise
  unchanged. The keys of \<open>tips\<close> stay distinct.
\<close>

theorem processCandidate_frame:
  assumes "processCandidate node bhash st = Inr st'"
  shows "let b = getblock node bhash in
         if prev b \<in> set (invalid st) \<or> validateBlock b = Inr False
         then tips st' = tips st \<and> prevs st' = prevs st \<and> invalid st' = invalid st @ [bhash]
         else invalid st' = invalid st
            \<and> map_of (tips st') = (map_of (tips st))(prev b := None, hash b \<mapsto> b)
            \<and> dom (map_of (tips st')) = insert (hash b) (dom (map_of (tips st)) - {prev b})
            \<and> (\<forall>k. k \<noteq> prev b \<and> k \<noteq> hash b \<longrightarrow> map_of (tips st') k = map_of (tips st) k)
            \<and> prevs st' = (prevs st)(bhash \<mapsto> prev b)
            \<and> (\<forall>k. k \<noteq> bhash \<longrightarrow> prevs st' k = prevs st k)
            \<and> (distinct (map fst (tips st)) \<longrightarrow> distinct (map fst (tips st')))"
proof -
  let ?b = "getblock node bhash"
  from processCandidate_Inr [OF assms]
  consider (rej) "prev ?b \<in> set (invalid st) \<or> validateBlock ?b = Inr False"
                 "st' = rejected bhash st"
    | (acc) "prev ?b \<notin> set (invalid st)" "validateBlock ?b = Inr True"
            "st' = accepted bhash ?b st"
    by blast
  then show ?thesis
  proof cases
    case rej
    then show ?thesis by (simp add: Let_def rejected_fields)
  next
    case acc
    have d: "dom (map_of (tips st')) = insert (hash ?b) (dom (map_of (tips st)) - {prev ?b})"
      by (auto simp: acc(3) accepted_fields split: if_splits)
    from acc d show ?thesis
      by (simp add: Let_def accepted_fields accepted_distinct)
  qed
qed

section \<open>The example node\<close>

lemma ex_validate:
  "validateBlock (ex_getblock ''a'') = Inr True"
  "validateBlock (ex_getblock ''b1'') = Inr True"
  "validateBlock (ex_getblock ''b2'') = Inr True"
  "validateBlock (ex_getblock ''x'') = Inr False"
  "validateBlock (ex_getblock ''y'') = Inr True"
  "validateBlock (ex_getblock ''c'') = Inr True"
  by (simp_all add: validateBlock_def getSubsidy_def ex_getblock_def ex_coinbase_def
        getTxFee_def drop_bit_eq_div)

lemma ex_prev:
  "prev (ex_getblock ''a'') = ''g''" "prev (ex_getblock ''b1'') = ''a''"
  "prev (ex_getblock ''b2'') = ''a''" "prev (ex_getblock ''x'') = ''a''"
  "prev (ex_getblock ''y'') = ''x''" "prev (ex_getblock ''c'') = ''b1''"
  by (simp_all add: ex_getblock_def)

lemma ex_hash: "hash (ex_getblock h) = h"
  by (simp add: ex_getblock_def)

lemma ex_getblock_node: "getblock ex_node = ex_getblock"
  by (simp add: ex_node_def)

lemma ex_step_b1:
  "processCandidate ex_node ''b1'' ex_state_a =
     Inr \<lparr>tips = [(''b1'', ex_getblock ''b1'')], prevs = [''a'' \<mapsto> ''g'', ''b1'' \<mapsto> ''a''], invalid = []\<rparr>"
  by (simp add: processCandidate_accepts ex_getblock_node ex_validate ex_prev ex_hash ex_state_a_def accepted_def)

text \<open>
  On the example node: from the state in which \<open>a\<close> is the only tip, accepting \<open>b1\<close>
  replaces \<open>a\<close> by \<open>b1\<close> in \<open>tips\<close>, and rejecting \<open>x\<close> only extends \<open>invalid\<close>.
\<close>

theorem processCandidate_frame_witness:
  "processCandidate ex_node ''b1'' ex_state_a =
     Inr \<lparr>tips = [(''b1'', ex_getblock ''b1'')],
          prevs = [''a'' \<mapsto> ''g'', ''b1'' \<mapsto> ''a''], invalid = []\<rparr>
   \<and> invalid ex_state_a = []
   \<and> map_of [(''b1'', ex_getblock ''b1'')]
       = (map_of (tips ex_state_a))(''a'' := None, ''b1'' \<mapsto> ex_getblock ''b1'')
   \<and> processCandidate ex_node ''x'' ex_state_a = Inr (ex_state_a\<lparr>invalid := [''x'']\<rparr>)"
proof -
  have x: "processCandidate ex_node ''x'' ex_state_a = Inr (ex_state_a\<lparr>invalid := [''x'']\<rparr>)"
    by (simp add: processCandidate_rejects ex_getblock_node ex_validate rejected_def ex_state_a_def)
  from processCandidate_frame [OF ex_step_b1] processCandidate_frame [OF x] x ex_step_b1
  show ?thesis
    by (simp add: Let_def ex_getblock_node ex_validate ex_prev ex_hash ex_state_a_def)
qed

section \<open>Rejection is permanent and propagates; forks coexist\<close>

lemma processCandidates_append:
  "processCandidates node (xs @ ys) st =
     (case processCandidates node xs st of
        Inl e \<Rightarrow> Inl e
      | Inr st' \<Rightarrow> processCandidates node ys st')"
  by (induction xs arbitrary: st) (simp_all split: sum.split)

lemma scan_as_candidates:
  "scan node h last_height st =
     processCandidates node (concat (map (getblocksbyheight node) [h..<Suc last_height])) st"
proof (induction node h last_height st rule: scan.induct)
  case (1 node h last_height st)
  let ?rest = "concat (map (getblocksbyheight node) [h + 1..<Suc last_height])"
  show ?case
  proof (cases "h \<le> last_height")
    case True
    then have u: "[h..<Suc last_height] = h # [h + 1..<Suc last_height]"
      by (simp add: upt_conv_Cons del: upt_Suc)
    have "scan node h last_height st =
            (case processCandidates node (getblocksbyheight node h) st of
               Inl e \<Rightarrow> Inl e
             | Inr st' \<Rightarrow> scan node (h + 1) last_height st')"
      using True by (subst scan.simps) simp
    also have "\<dots> =
            (case processCandidates node (getblocksbyheight node h) st of
               Inl e \<Rightarrow> Inl e
             | Inr st' \<Rightarrow> processCandidates node ?rest st')"
      using "1.IH" [OF True] by (simp split: sum.split del: upt_Suc)
    also have "\<dots> = processCandidates node (getblocksbyheight node h @ ?rest) st"
      by (simp only: processCandidates_append)
    finally show ?thesis by (simp only: u list.map concat.simps)
  next
    case False
    then show ?thesis by (subst scan.simps) simp
  qed
qed

lemma processCandidate_Inr_cases [consumes 1, case_names rej acc]:
  assumes "processCandidate node c st = Inr st'"
  obtains (rej) "st' = rejected c st"
                "prev (getblock node c) \<in> set (invalid st)
                 \<or> validateBlock (getblock node c) = Inr False"
        | (acc) "st' = accepted c (getblock node c) st"
                "prev (getblock node c) \<notin> set (invalid st)"
                "validateBlock (getblock node c) = Inr True"
  using processCandidate_Inr [OF assms] by blast

lemma processCandidate_invalid_grows:
  "processCandidate node c st = Inr st' \<Longrightarrow> \<exists>more. invalid st' = invalid st @ more"
  by (drule processCandidate_Inr) (auto simp: rejected_fields accepted_fields)

lemma processCandidates_invalid_grows:
  "processCandidates node cs st = Inr st' \<Longrightarrow> \<exists>more. invalid st' = invalid st @ more"
proof (induction cs arbitrary: st)
  case Nil
  then show ?case by simp
next
  case (Cons c cs)
  from Cons.prems obtain st1 where s1: "processCandidate node c st = Inr st1"
    and rest: "processCandidates node cs st1 = Inr st'"
    by (auto split: sum.splits)
  from processCandidate_invalid_grows [OF s1] obtain m1 where "invalid st1 = invalid st @ m1" ..
  moreover from Cons.IH [OF rest] obtain m2 where "invalid st' = invalid st1 @ m2" ..
  ultimately have "invalid st' = invalid st @ (m1 @ m2)" by simp
  then show ?case ..
qed


lemma doomed_step:
  assumes "processCandidate node c st = Inr st'" and "doomed node bhash st"
  shows "doomed node bhash st'"
  using processCandidate_invalid_grows [OF assms(1)] assms(2)
  by (auto simp: doomed_def)

lemma no_entry_step:
  assumes coherent: "\<And>h. hash (getblock node h) = h"
    and step: "processCandidate node c st = Inr st'"
    and d: "doomed node bhash st"
  shows "(bhash \<notin> fst ` set (tips st) \<longrightarrow> bhash \<notin> fst ` set (tips st'))
       \<and> (prevs st bhash = None \<longrightarrow> prevs st' bhash = None)"
proof (cases "c = bhash")
  case True
  with d have "processCandidate node c st = Inr (rejected bhash st)"
    by (simp add: processCandidate_rejects doomed_def)
  with step have "st' = rejected bhash st" by simp
  then show ?thesis by (simp add: rejected_fields)
next
  case False
  from step show ?thesis
  proof (cases rule: processCandidate_Inr_cases)
    case rej
    then show ?thesis by (simp add: rejected_fields)
  next
    case acc
    note a = acc(1)
    have "bhash \<notin> fst ` set (tips st) \<Longrightarrow> bhash \<notin> fst ` set (tips st')"
      using False dom_delete_subset [of "prev (getblock node c)" "tips st"]
      by (auto simp: a accepted_tips dom_update coherent)
    then show ?thesis using False by (simp add: a accepted_fields)
  qed
qed

lemma no_entry_steps:
  assumes coherent: "\<And>h. hash (getblock node h) = h"
  shows "processCandidates node cs st = Inr st' \<Longrightarrow> doomed node bhash st \<Longrightarrow>
         doomed node bhash st'
         \<and> (bhash \<notin> fst ` set (tips st) \<longrightarrow> bhash \<notin> fst ` set (tips st'))
         \<and> (prevs st bhash = None \<longrightarrow> prevs st' bhash = None)"
proof (induction cs arbitrary: st)
  case Nil
  then show ?case by simp
next
  case (Cons c cs)
  from Cons.prems(1) obtain st1 where s1: "processCandidate node c st = Inr st1"
    and rest: "processCandidates node cs st1 = Inr st'"
    by (auto split: sum.splits)
  have d1: "doomed node bhash st1" by (rule doomed_step [OF s1 Cons.prems(2)])
  from no_entry_step [OF coherent s1 Cons.prems(2)] Cons.IH [OF rest d1]
  show ?case by simp
qed

lemma descendant_rejected:
  "prev (getblock node d) \<in> set (invalid st) \<Longrightarrow>
   processCandidate node d st = Inr (st\<lparr>invalid := invalid st @ [d]\<rparr>)"
  by (simp add: processCandidate_rejects rejected_def)

text \<open>
  Claim C4. Let the node return, for each hash, the block of that hash. If a candidate's
  parent is in \<open>invalid\<close>, or its \<open>validateBlock\<close> is false, the step appends its hash to
  \<open>invalid\<close> and changes nothing else; with the parent in \<open>invalid\<close> this holds whatever
  \<open>validateBlock\<close> would give (also where it would throw), as the check is not evaluated.
  Whatever candidates are processed afterwards, by the \<open>for\<close> loop or by the whole
  \<open>while\<close> loop, \<open>invalid\<close> only grows at its end, so the hash stays in it; the
  candidate gets no entry in \<open>tips\<close> or \<open>prevs\<close> that it did not have before; and every
  block naming it as parent is rejected in turn.
\<close>

theorem invalid_is_permanent:
  assumes coherent: "\<And>h. hash (getblock node h) = h"
    and bad: "prev (getblock node bhash) \<in> set (invalid st)
              \<or> validateBlock (getblock node bhash) = Inr False"
  shows "processCandidate node bhash st = Inr (st\<lparr>invalid := invalid st @ [bhash]\<rparr>)
       \<and> (\<forall>later st'.
             processCandidates node later (st\<lparr>invalid := invalid st @ [bhash]\<rparr>) = Inr st'
             \<longrightarrow> (\<exists>more. invalid st' = invalid st @ [bhash] @ more)
               \<and> (bhash \<notin> fst ` set (tips st) \<longrightarrow> bhash \<notin> fst ` set (tips st'))
               \<and> (prevs st bhash = None \<longrightarrow> prevs st' bhash = None)
               \<and> (\<forall>d. prev (getblock node d) = bhash \<longrightarrow>
                      processCandidate node d st' = Inr (st'\<lparr>invalid := invalid st' @ [d]\<rparr>)))
       \<and> (\<forall>h last_height st'.
             scan node h last_height (st\<lparr>invalid := invalid st @ [bhash]\<rparr>) = Inr st'
             \<longrightarrow> bhash \<in> set (invalid st')
               \<and> (bhash \<notin> fst ` set (tips st) \<longrightarrow> bhash \<notin> fst ` set (tips st'))
               \<and> (prevs st bhash = None \<longrightarrow> prevs st' bhash = None))"
proof -
  let ?st1 = "st\<lparr>invalid := invalid st @ [bhash]\<rparr>"
  have first: "processCandidate node bhash st = Inr ?st1"
    using bad by (simp add: processCandidate_rejects rejected_def)
  have d0: "doomed node bhash st" using bad by (simp add: doomed_def)
  have d1: "doomed node bhash ?st1" by (rule doomed_step [OF first d0])
  have later: "(\<exists>more. invalid st' = invalid st @ [bhash] @ more)
               \<and> (bhash \<notin> fst ` set (tips st) \<longrightarrow> bhash \<notin> fst ` set (tips st'))
               \<and> (prevs st bhash = None \<longrightarrow> prevs st' bhash = None)
               \<and> (\<forall>d. prev (getblock node d) = bhash \<longrightarrow>
                      processCandidate node d st' = Inr (st'\<lparr>invalid := invalid st' @ [d]\<rparr>))"
    if run: "processCandidates node cs ?st1 = Inr st'" for cs st'
  proof -
    from processCandidates_invalid_grows [OF run]
    obtain more where m: "invalid st' = invalid st @ [bhash] @ more" by auto
    then have "bhash \<in> set (invalid st')" by simp
    then have "\<forall>d. prev (getblock node d) = bhash \<longrightarrow>
                 processCandidate node d st' = Inr (st'\<lparr>invalid := invalid st' @ [d]\<rparr>)"
      by (simp add: descendant_rejected)
    moreover from no_entry_steps [OF coherent run d1]
    have "(bhash \<notin> fst ` set (tips st) \<longrightarrow> bhash \<notin> fst ` set (tips st'))
        \<and> (prevs st bhash = None \<longrightarrow> prevs st' bhash = None)"
      by simp
    ultimately show ?thesis using m by blast
  qed
  have scanned: "bhash \<in> set (invalid st')
               \<and> (bhash \<notin> fst ` set (tips st) \<longrightarrow> bhash \<notin> fst ` set (tips st'))
               \<and> (prevs st bhash = None \<longrightarrow> prevs st' bhash = None)"
    if run: "scan node h l ?st1 = Inr st'" for h l st'
  proof -
    from run have "processCandidates node
        (concat (map (getblocksbyheight node) [h..<Suc l])) ?st1 = Inr st'"
      by (simp add: scan_as_candidates)
    from later [OF this] show ?thesis by auto
  qed
  from first later scanned show ?thesis by blast
qed

lemma fork_one_order:
  assumes validA: "a \<notin> set (invalid st)"
    and b1: "hash (getblock node h1) = h1" "prev (getblock node h1) = a"
            "validateBlock (getblock node h1) = Inr True" "h1 \<noteq> a"
    and b2: "hash (getblock node h2) = h2" "prev (getblock node h2) = a"
            "validateBlock (getblock node h2) = Inr True" "h2 \<noteq> a"
  shows "\<exists>st'. processCandidates node [h1, h2] st = Inr st'
              \<and> map_of (tips st') h1 = Some (getblock node h1)
              \<and> map_of (tips st') h2 = Some (getblock node h2)
              \<and> map_of (tips st') a = None
              \<and> invalid st' = invalid st"
proof -
  let ?s1 = "accepted h1 (getblock node h1) st"
  let ?s2 = "accepted h2 (getblock node h2) ?s1"
  have 1: "processCandidate node h1 st = Inr ?s1"
    using validA b1 by (simp add: processCandidate_accepts)
  have 2: "processCandidate node h2 ?s1 = Inr ?s2"
    using validA b2 by (simp add: processCandidate_accepts accepted_fields)
  have run: "processCandidates node [h1, h2] st = Inr ?s2"
    by (simp add: 1 2)
  have "map_of (tips ?s2) h1 = Some (getblock node h1)"
    using b1 b2 by (auto simp: accepted_fields)
  moreover have "map_of (tips ?s2) h2 = Some (getblock node h2)"
    using b2 by (simp add: accepted_fields)
  moreover have "map_of (tips ?s2) a = None"
    using b1 b2 by (simp add: accepted_fields)
  moreover have "invalid ?s2 = invalid st"
    by (simp add: accepted_fields)
  ultimately show ?thesis using run by blast
qed

text \<open>
  Claim C5. Let \<open>A\<close> be a tip that is not in \<open>invalid\<close>, and let the candidates \<open>h1\<close> and
  \<open>h2\<close> be blocks with parent \<open>A\<close>, each passing \<open>validateBlock\<close>, with hashes other than
  \<open>A\<close>'s. Processing them in either order succeeds and leaves both in \<open>tips\<close>, and
  \<open>A\<close> no longer in \<open>tips\<close>.
\<close>

theorem fork_coexistence:
  assumes tipA: "map_of (tips st) (hash A) = Some A"
    and validA: "hash A \<notin> set (invalid st)"
    and b1: "hash (getblock node h1) = h1" "prev (getblock node h1) = hash A"
            "validateBlock (getblock node h1) = Inr True" "h1 \<noteq> hash A"
    and b2: "hash (getblock node h2) = h2" "prev (getblock node h2) = hash A"
            "validateBlock (getblock node h2) = Inr True" "h2 \<noteq> hash A"
  shows "(\<exists>st'. processCandidates node [h1, h2] st = Inr st'
              \<and> map_of (tips st') h1 = Some (getblock node h1)
              \<and> map_of (tips st') h2 = Some (getblock node h2)
              \<and> map_of (tips st') (hash A) = None)
       \<and> (\<exists>st'. processCandidates node [h2, h1] st = Inr st'
              \<and> map_of (tips st') h1 = Some (getblock node h1)
              \<and> map_of (tips st') h2 = Some (getblock node h2)
              \<and> map_of (tips st') (hash A) = None)"
  using fork_one_order [OF validA b1 b2] fork_one_order [OF validA b2 b1] by blast

lemma ex_state_a_fields:
  "tips ex_state_a = [(''a'', ex_getblock ''a'')]" "invalid ex_state_a = []"
  "prevs ex_state_a = [''a'' \<mapsto> ''g'']"
  by (simp_all add: ex_state_a_def)

theorem fork_coexistence_witness:
  "map_of (tips ex_state_a) (hash (ex_getblock ''a'')) = Some (ex_getblock ''a'')
   \<and> validateBlock (getblock ex_node ''b1'') = Inr True
   \<and> validateBlock (getblock ex_node ''b2'') = Inr True
   \<and> prev (getblock ex_node ''b1'') = ''a'' \<and> prev (getblock ex_node ''b2'') = ''a''
   \<and> (\<exists>st'. processCandidates ex_node [''b1'', ''b2''] ex_state_a = Inr st'
              \<and> map_of (tips st') ''b1'' = Some (ex_getblock ''b1'')
              \<and> map_of (tips st') ''b2'' = Some (ex_getblock ''b2'')
              \<and> map_of (tips st') ''a'' = None)
   \<and> (\<exists>st'. processCandidates ex_node [''b2'', ''b1''] ex_state_a = Inr st'
              \<and> map_of (tips st') ''b1'' = Some (ex_getblock ''b1'')
              \<and> map_of (tips st') ''b2'' = Some (ex_getblock ''b2'')
              \<and> map_of (tips st') ''a'' = None)"
  using fork_coexistence [of ex_state_a "ex_getblock ''a''" ex_node "''b1''" "''b2''"]
  by (simp add: ex_getblock_node ex_hash ex_prev ex_validate ex_state_a_fields)

text \<open>
  On the example node: \<open>x\<close> fails its coinbase check and is rejected; \<open>y\<close>, whose own
  coinbase is correct, names \<open>x\<close> as parent and is rejected too.
\<close>

theorem invalid_is_permanent_witness:
  "validateBlock (getblock ex_node ''x'') = Inr False
   \<and> processCandidate ex_node ''x'' ex_state_a = Inr (ex_state_a\<lparr>invalid := [''x'']\<rparr>)
   \<and> validateBlock (getblock ex_node ''y'') = Inr True
   \<and> prev (getblock ex_node ''y'') = ''x''
   \<and> processCandidate ex_node ''y'' (ex_state_a\<lparr>invalid := [''x'']\<rparr>)
       = Inr (ex_state_a\<lparr>invalid := [''x'', ''y'']\<rparr>)"
proof -
  have bad: "prev (getblock ex_node ''x'') \<in> set (invalid ex_state_a)
             \<or> validateBlock (getblock ex_node ''x'') = Inr False"
    by (simp add: ex_getblock_node ex_validate)
  have coherent: "hash (getblock ex_node h) = h" for h
    by (simp add: ex_getblock_node ex_hash)
  note t = invalid_is_permanent [of ex_node "''x''" ex_state_a, OF coherent bad]
  from t have first:
    "processCandidate ex_node ''x'' ex_state_a
       = Inr (ex_state_a\<lparr>invalid := invalid ex_state_a @ [''x'']\<rparr>)"
    by (rule conjunct1)
  from t have
    "processCandidates ex_node [] (ex_state_a\<lparr>invalid := invalid ex_state_a @ [''x'']\<rparr>)
       = Inr (ex_state_a\<lparr>invalid := invalid ex_state_a @ [''x'']\<rparr>)
     \<longrightarrow> (\<forall>d. prev (getblock ex_node d) = ''x'' \<longrightarrow>
            processCandidate ex_node d (ex_state_a\<lparr>invalid := invalid ex_state_a @ [''x'']\<rparr>)
            = Inr (ex_state_a\<lparr>invalid := invalid ex_state_a @ [''x'']\<rparr>
                     \<lparr>invalid := invalid (ex_state_a\<lparr>invalid := invalid ex_state_a @ [''x'']\<rparr>) @ [d]\<rparr>))"
    by blast
  then have second:
    "processCandidate ex_node ''y'' (ex_state_a\<lparr>invalid := invalid ex_state_a @ [''x'']\<rparr>)
       = Inr (ex_state_a\<lparr>invalid := [''x'', ''y'']\<rparr>)"
    by (simp add: ex_getblock_node ex_prev ex_state_a_fields)
  from first second show ?thesis
    by (simp add: ex_getblock_node ex_prev ex_validate ex_state_a_fields)
qed

section \<open>Selecting the best tip\<close>

lemma foldl_higher_last_maximal:
  "\<exists>pre post. a # rest = pre @ foldl higher a rest # post
      \<and> (\<forall>x\<in>set pre. height x \<le> height (foldl higher a rest))
      \<and> (\<forall>x\<in>set post. height x < height (foldl higher a rest))"
proof (induction rest rule: rev_induct)
  case Nil
  have "[a] = [] @ a # []" by simp
  then show ?case by force
next
  case (snoc x rest)
  let ?r = "foldl higher a rest"
  from snoc obtain pre post where d: "a # rest = pre @ ?r # post"
    and lo: "\<forall>y\<in>set pre. height y \<le> height ?r"
    and hi: "\<forall>y\<in>set post. height y < height ?r"
    by blast
  show ?case
  proof (cases "height ?r > height x")
    case True
    then have r: "foldl higher a (rest @ [x]) = ?r" by (simp add: higher_def)
    have "a # rest @ [x] = pre @ ?r # (post @ [x])" using d by simp
    moreover have "\<forall>y\<in>set (post @ [x]). height y < height ?r" using hi True by simp
    ultimately show ?thesis unfolding r using lo by blast
  next
    case False
    then have r: "foldl higher a (rest @ [x]) = x" by (simp add: higher_def)
    have all: "\<forall>y\<in>set (a # rest). height y \<le> height x"
    proof
      fix y assume "y \<in> set (a # rest)"
      then have "y \<in> set pre \<or> y = ?r \<or> y \<in> set post" unfolding d by auto
      then have "height y \<le> height ?r" using lo hi by (auto simp: less_imp_le)
      then show "height y \<le> height x" using False by simp
    qed
    have "a # rest @ [x] = (a # rest) @ x # []" by simp
    then show ?thesis unfolding r using all by (metis empty_iff empty_set)
  qed
qed

text \<open>
  Claim C6, as amended. The claim says the first maximal tip in enumeration order is
  kept. The callback keeps its accumulator only when it is strictly higher, so on equal
  heights the later tip wins: for every non-empty list of tips, the selected tip is the
  last one of maximal height: no tip before it is higher, every tip after it is strictly
  lower.
\<close>

theorem reduce_higher_keeps_last_maximal:
  assumes "bs \<noteq> []"
  shows "\<exists>pre best post. reduce higher bs = Inr best \<and> bs = pre @ best # post
      \<and> (\<forall>x\<in>set pre. height x \<le> height best)
      \<and> (\<forall>x\<in>set post. height x < height best)"
proof -
  from assms obtain a rest where bs: "bs = a # rest" by (cases bs) auto
  have "reduce higher bs = Inr (foldl higher a rest)" by (simp add: bs reduce_def)
  with foldl_higher_last_maximal [of a rest] show ?thesis unfolding bs by blast
qed

text \<open>
  Two tips of height 5: the first maximal one is \<open>t1\<close>, the selected one is \<open>t2\<close>.
\<close>

theorem reduce_higher_not_first_maximal:
  "spec_first_maximal [ex_tip ''t1'' ''p'' 5, ex_tip ''t2'' ''p'' 5] = Some (ex_tip ''t1'' ''p'' 5)
   \<and> reduce higher [ex_tip ''t1'' ''p'' 5, ex_tip ''t2'' ''p'' 5] = Inr (ex_tip ''t2'' ''p'' 5)
   \<and> ex_tip ''t2'' ''p'' 5 \<noteq> ex_tip ''t1'' ''p'' 5"
  by (simp add: spec_first_maximal_def reduce_def higher_def ex_tip_def)

theorem reduce_higher_keeps_last_maximal_witness:
  "[ex_tip ''t1'' ''p'' 5, ex_tip ''t2'' ''p'' 7, ex_tip ''t3'' ''p'' 7, ex_tip ''t4'' ''p'' 6] \<noteq> []
   \<and> reduce higher [ex_tip ''t1'' ''p'' 5, ex_tip ''t2'' ''p'' 7, ex_tip ''t3'' ''p'' 7, ex_tip ''t4'' ''p'' 6]
       = Inr (ex_tip ''t3'' ''p'' 7)"
  using reduce_higher_keeps_last_maximal
          [of "[ex_tip ''t1'' ''p'' 5, ex_tip ''t2'' ''p'' 7, ex_tip ''t3'' ''p'' 7, ex_tip ''t4'' ''p'' 6]"]
  by (simp add: reduce_def higher_def ex_tip_def)

section \<open>Rebuilding the chain\<close>

lemma lineage_snoc:
  "lineage ps (zs @ [y, x]) \<longleftrightarrow> lineage ps (zs @ [y]) \<and> ps x = Some y"
proof (induction zs rule: lineage.induct[of _ ps])
  case (1 ps')
  show ?case by auto
next
  case (2 ps' c)
  show ?case by auto
next
  case (3 ps' a b rest)
  then show ?case by auto
qed

lemma walk_lineage:
  assumes "lineage ps (xs @ [x])"
    and "xs \<noteq> [] \<Longrightarrow> ps (hd xs) = None"
    and "xs = [] \<Longrightarrow> ps x = None"
    and "[] \<notin> set xs"
  shows "walk ps x acc = Some (acc @ rev xs)"
  using assms
proof (induction xs arbitrary: x acc rule: rev_induct)
  case Nil
  then show ?case by (subst walk.simps) simp
next
  case (snoc y ys)
  from snoc.prems(1) have l: "lineage ps (ys @ [y])" and px: "ps x = Some y"
    using lineage_snoc [of ps ys y x] by simp_all
  from snoc.prems(4) have ne: "y \<noteq> []" and nes: "[] \<notin> set ys" by auto
  have h1: "ys \<noteq> [] \<Longrightarrow> ps (hd ys) = None" using snoc.prems(2) by simp
  have h2: "ys = [] \<Longrightarrow> ps y = None" using snoc.prems(2) by simp
  have "walk ps x acc = walk ps y (acc @ [y])"
    using px ne by (subst walk.simps) simp
  also have "\<dots> = Some ((acc @ [y]) @ rev ys)"
    by (rule snoc.IH [OF l h1 h2 nes])
  finally show ?case by simp
qed

lemma lineage_prefix:
  "lineage ps (xs @ ys) \<Longrightarrow> xs \<noteq> [] \<Longrightarrow> lineage ps xs"
proof (induction xs rule: lineage.induct[of _ ps])
  case (1 ps')
  then show ?case by simp
next
  case (2 ps' c)
  then show ?case by simp
next
  case (3 ps' a b rest)
  then show ?case by simp
qed

lemma lineage_nonempty: "lineage ps chain \<Longrightarrow> chain \<noteq> []"
  by auto

lemma lineage_last_once:
  assumes l: "lineage ps (xs @ [x])"
    and root: "ps (hd (xs @ [x])) = None"
    and ne: "[] \<notin> set xs"
  shows "x \<notin> set xs"
proof
  assume "x \<in> set xs"
  then obtain pre post where xs: "xs = pre @ x # post" by (auto dest: split_list)
  have w1: "walk ps x [] = Some ([] @ rev xs)"
    using l root ne by (intro walk_lineage) (auto simp: hd_append)
  have l2: "lineage ps (pre @ [x])"
    using lineage_prefix [of ps "pre @ [x]" "post @ [x]"] l by (simp add: xs)
  have w2: "walk ps x [] = Some ([] @ rev pre)"
    using l2 root ne by (intro walk_lineage) (auto simp: xs hd_append)
  from w1 w2 have "rev xs = rev pre" by simp
  then have "length xs = length pre" by (metis length_rev)
  then show False by (simp add: xs)
qed

lemma step_prevs:
  assumes "processCandidate node c s = Inr s1"
  shows "prevs s1 = prevs s
         \<or> prevs s1 = (prevs s)(c \<mapsto> prev (getblock node c))
           \<and> prev (getblock node c) \<notin> set (invalid s)"
  using assms
  by (cases rule: processCandidate_Inr_cases) (simp_all add: rejected_fields accepted_fields)

lemma prevs_stable:
  "processCandidates node cs s = Inr s' \<Longrightarrow> prevs s k = Some (prev (getblock node k))
   \<Longrightarrow> prevs s' k = Some (prev (getblock node k))"
proof (induction cs arbitrary: s)
  case Nil
  then show ?case by simp
next
  case (Cons c cs)
  from Cons.prems(1) obtain s1 where s1: "processCandidate node c s = Inr s1"
    and rest: "processCandidates node cs s1 = Inr s'"
    by (auto split: sum.splits)
  from step_prevs [OF s1] Cons.prems(2) have "prevs s1 k = Some (prev (getblock node k))"
    by auto
  then show ?case by (rule Cons.IH [OF rest])
qed

lemma prevs_origin:
  "processCandidates node cs s = Inr s' \<Longrightarrow> prevs s k = None \<Longrightarrow> prevs s' k = Some p
   \<Longrightarrow> k \<in> set cs \<and> p = prev (getblock node k) \<and> prev (getblock node k) \<notin> set (invalid s)"
proof (induction cs arbitrary: s)
  case Nil
  then show ?case by simp
next
  case (Cons c cs)
  from Cons.prems(1) obtain s1 where s1: "processCandidate node c s = Inr s1"
    and rest: "processCandidates node cs s1 = Inr s'"
    by (auto split: sum.splits)
  show ?case
  proof (cases "prevs s1 k")
    case None
    from Cons.IH [OF rest None Cons.prems(3)]
    have "k \<in> set cs" "p = prev (getblock node k)"
      "prev (getblock node k) \<notin> set (invalid s1)"
      by simp_all
    moreover from processCandidate_invalid_grows [OF s1]
    have "set (invalid s) \<subseteq> set (invalid s1)" by auto
    ultimately show ?thesis by auto
  next
    case (Some q)
    with step_prevs [OF s1] Cons.prems(2)
    have ck: "c = k" and acc: "prevs s1 k = Some (prev (getblock node k))"
      and ok: "prev (getblock node k) \<notin> set (invalid s)"
      by (auto split: if_splits)
    from prevs_stable [OF rest acc] Cons.prems(3) have "p = prev (getblock node k)"
      by simp
    with ck ok show ?thesis by simp
  qed
qed

lemma prevs_dom_grows:
  "processCandidates node cs s = Inr s' \<Longrightarrow> prevs s k \<noteq> None \<Longrightarrow> prevs s' k \<noteq> None"
proof (induction cs arbitrary: s)
  case Nil
  then show ?case by simp
next
  case (Cons c cs)
  from Cons.prems(1) obtain s1 where s1: "processCandidate node c s = Inr s1"
    and rest: "processCandidates node cs s1 = Inr s'"
    by (auto split: sum.splits)
  from step_prevs [OF s1] Cons.prems(2) have "prevs s1 k \<noteq> None" by auto
  then show ?case by (rule Cons.IH [OF rest])
qed

lemma processed_settled:
  "processCandidates node cs s = Inr s' \<Longrightarrow> c \<in> set cs
   \<Longrightarrow> c \<in> set (invalid s') \<or> prevs s' c \<noteq> None"
proof (induction cs arbitrary: s)
  case Nil
  then show ?case by simp
next
  case (Cons c' cs)
  from Cons.prems(1) obtain s1 where s1: "processCandidate node c' s = Inr s1"
    and rest: "processCandidates node cs s1 = Inr s'"
    by (auto split: sum.splits)
  show ?case
  proof (cases "c \<in> set cs")
    case True
    then show ?thesis by (rule Cons.IH [OF rest])
  next
    case False
    with Cons.prems(2) have cc: "c' = c" by simp
    from s1 have now: "c \<in> set (invalid s1) \<or> prevs s1 c \<noteq> None"
      unfolding cc
      by (cases rule: processCandidate_Inr_cases) (simp_all add: rejected_fields accepted_fields)
    from processCandidates_invalid_grows [OF rest]
    have "set (invalid s1) \<subseteq> set (invalid s')" by auto
    with now prevs_dom_grows [OF rest, of c] show ?thesis by auto
  qed
qed

lemma tips_step:
  assumes coherent: "\<And>x. hash (getblock node x) = x"
    and step: "processCandidate node c s = Inr s1"
    and inv: "distinct (map fst (tips s))"
             "\<forall>k b. map_of (tips s) k = Some b \<longrightarrow> b = getblock node k \<and> prevs s k \<noteq> None"
  shows "distinct (map fst (tips s1))
       \<and> (\<forall>k b. map_of (tips s1) k = Some b \<longrightarrow> b = getblock node k \<and> prevs s1 k \<noteq> None)"
  using step
proof (cases rule: processCandidate_Inr_cases)
  case rej
  with inv show ?thesis by (simp add: rejected_fields)
next
  case acc
  have "distinct (map fst (tips s1))"
    unfolding acc(1) using inv(1) by (rule accepted_distinct)
  moreover have "\<forall>k b. map_of (tips s1) k = Some b \<longrightarrow> b = getblock node k \<and> prevs s1 k \<noteq> None"
    using inv(2) by (auto simp: acc(1) accepted_fields coherent split: if_splits)
  ultimately show ?thesis by simp
qed

lemma tips_steps:
  assumes coherent: "\<And>x. hash (getblock node x) = x"
  shows "processCandidates node cs s = Inr s' \<Longrightarrow>
         distinct (map fst (tips s))
         \<and> (\<forall>k b. map_of (tips s) k = Some b \<longrightarrow> b = getblock node k \<and> prevs s k \<noteq> None)
         \<Longrightarrow> distinct (map fst (tips s'))
         \<and> (\<forall>k b. map_of (tips s') k = Some b \<longrightarrow> b = getblock node k \<and> prevs s' k \<noteq> None)"
proof (induction cs arbitrary: s)
  case Nil
  then show ?case by simp
next
  case (Cons c cs)
  from Cons.prems(1) obtain s1 where s1: "processCandidate node c s = Inr s1"
    and rest: "processCandidates node cs s1 = Inr s'"
    by (auto split: sum.splits)
  from Cons.prems(2) have i: "distinct (map fst (tips s))"
    "\<forall>k b. map_of (tips s) k = Some b \<longrightarrow> b = getblock node k \<and> prevs s k \<noteq> None"
    by simp_all
  from tips_step [OF coherent s1 i] show ?case by (rule Cons.IH [OF rest])
qed

lemma lineage_parents:
  "lineage ps chain \<Longrightarrow> x \<in> set (butlast chain) \<Longrightarrow> \<exists>y. ps y = Some x"
proof (induction ps chain rule: lineage.induct)
  case (1 ps)
  then show ?case by simp
next
  case (2 ps c)
  then show ?case by simp
next
  case (3 ps a b rest)
  then show ?case by auto
qed

lemma lineage_heights:
  assumes up: "\<And>y x. ps y = Some x \<Longrightarrow> f y = Suc (f x)"
  shows "lineage ps chain \<Longrightarrow> f (last chain) + 1 = f (hd chain) + length chain"
proof (induction chain rule: induct_list012)
  case 1
  then show ?case by simp
next
  case (2 x)
  then show ?case by simp
next
  case (3 x y zs)
  from "3.prems" have xy: "ps y = Some x" and l: "lineage ps (y # zs)" by simp_all
  from "3.IH"(2) [OF l] up [OF xy] show ?case by simp
qed

lemma selectBest_of_lineage:
  assumes best: "reduce higher (map snd (tips st)) = Inr best"
    and linked: "lineage (prevs st) chain"
    and root: "prevs st (hd chain) = None"
    and tip: "last chain = hash best"
    and hashes: "[] \<notin> set (butlast chain)"
  shows "selectBest st = Some (Inr (chain, invalid st)) \<and> count_list chain (hash best) = 1"
proof -
  from linked have ne: "chain \<noteq> []" by (rule lineage_nonempty)
  then obtain xs where chain: "chain = xs @ [hash best]"
    using tip by (metis append_butlast_last_id)
  have w: "walk (prevs st) (hash best) [hash best] = Some ([hash best] @ rev xs)"
    using linked root hashes unfolding chain
    by (intro walk_lineage) (auto simp: hd_append)
  have sel: "selectBest st = Some (Inr (chain, invalid st))"
    by (simp add: selectBest_def best w chain)
  have "hash best \<notin> set xs"
    using lineage_last_once [of "prevs st" xs "hash best"] linked root hashes
    by (simp add: chain)
  then have "count_list chain (hash best) = 1"
    by (simp add: chain count_list_0_iff)
  with sel show ?thesis by simp
qed

text \<open>
  Claim C7, as amended. The claim takes the block at \<open>startHeight\<close> to have no entry
  in the parent index; the loop gives every block it accepts an entry, so the walk goes
  on to that block's parent. Let the node be consistent, let the loop over the heights
  from \<open>startHeight\<close> leave \<open>tips\<close> holding \<open>T1\<close> at height 5 and \<open>T2\<close> at height 7, in
  either order, and let \<open>chain\<close> be a chain of parent links in the parent index that
  ends at \<open>T2\<close>'s hash and starts at a candidate of height \<open>startHeight\<close>. Then that
  first block has its parent as entry, the parent has none, and the selection phase
  terminates and returns the parent followed by \<open>chain\<close> as \<open>valid\<close>, oldest first: its
  length is \<open>height T2 - startHeight + 2\<close>, it is linked by the parent index, its last
  element is \<open>T2\<close>'s hash, and that hash occurs in it once.
\<close>

theorem scan_lineage_starts_below:
  assumes node: "well_formed_node node"
    and run: "scan node startHeight last_height \<lparr>tips = [], prevs = Map.empty, invalid = []\<rparr>
              = Inr st"
    and two_tips: "map snd (tips st) = [T1, T2] \<or> map snd (tips st) = [T2, T1]"
    and h1: "height T1 = 5"
    and h2: "height T2 = 7"
    and linked: "lineage (prevs st) chain"
    and tip: "last chain = hash T2"
    and start: "hd chain \<in> set (getblocksbyheight node startHeight)"
  shows "\<exists>valid. selectBest st = Some (Inr (valid, invalid st))
           \<and> valid = prev (getblock node (hd chain)) # chain
           \<and> prevs st (hd chain) = Some (prev (getblock node (hd chain)))
           \<and> prevs st (prev (getblock node (hd chain))) = None
           \<and> length valid = height T2 - startHeight + 2
           \<and> lineage (prevs st) valid
           \<and> last valid = hash T2
           \<and> count_list valid (hash T2) = 1"
proof -
  let ?init = "\<lparr>tips = [], prevs = Map.empty, invalid = []\<rparr> :: state"
  let ?all = "concat (map (getblocksbyheight node) [startHeight..<Suc last_height])"
  let ?c0 = "hd chain"
  let ?p = "prev (getblock node ?c0)"
  from node have coherent: "hash (getblock node x) = x" for x
    by (simp add: well_formed_node_def)
  from node have listed:
    "height (getblock node x) = h \<and> prev (getblock node x) \<noteq> []
     \<and> Suc (height (getblock node (prev (getblock node x)))) = h"
    if "x \<in> set (getblocksbyheight node h)" for x h
    using that by (simp add: well_formed_node_def)
  from run have all: "processCandidates node ?all ?init = Inr st"
    by (simp add: scan_as_candidates)
  have entry: "p = prev (getblock node k) \<and> p \<noteq> []
               \<and> height (getblock node k) = Suc (height (getblock node p))
               \<and> startHeight \<le> height (getblock node k)"
    if "prevs st k = Some p" for k p
  proof -
    have none: "prevs ?init k = None" by simp
    from prevs_origin [OF all none that]
    have k: "k \<in> set ?all" and p: "p = prev (getblock node k)"
      by blast+
    from k obtain h where h: "startHeight \<le> h" "k \<in> set (getblocksbyheight node h)"
      by auto
    from listed [OF h(2)] h(1) p show ?thesis by simp
  qed
  have tips_inv: "distinct (map fst (tips st))
       \<and> (\<forall>k b. map_of (tips st) k = Some b \<longrightarrow> b = getblock node k \<and> prevs st k \<noteq> None)"
    by (rule tips_steps [OF coherent all]) simp
  have T2_tip: "T2 \<in> snd ` set (tips st)" using two_tips by (metis image_set list.set_intros(1,2))
  then obtain k2 where "(k2, T2) \<in> set (tips st)" by auto
  with tips_inv have "map_of (tips st) k2 = Some T2" by simp
  with tips_inv have T2: "T2 = getblock node k2" and k2: "prevs st k2 \<noteq> None" by auto
  from T2 coherent have hk2: "hash T2 = k2" by simp
  from linked have ne: "chain \<noteq> []" by (rule lineage_nonempty)
  have best: "reduce higher (map snd (tips st)) = Inr T2"
    using two_tips h1 h2 by (auto simp: reduce_def higher_def)
  from start have c0: "height (getblock node ?c0) = startHeight" "?p \<noteq> []"
    "Suc (height (getblock node ?p)) = startHeight"
    using listed [OF start] by simp_all
  have accepted0: "prevs st ?c0 \<noteq> None"
  proof -
    from ne consider (one) c where "chain = [c]"
      | (more) a b rest where "chain = a # b # rest"
      by (metis neq_Nil_conv)
    then show ?thesis
    proof cases
      case one
      with tip hk2 k2 show ?thesis by simp
    next
      case more
      with linked have ba: "prevs st b = Some a" by simp
      from more have a: "?c0 = a" by simp
      from entry [OF ba] c0(1) a have hb: "height (getblock node b) = Suc startHeight"
        and pb: "prev (getblock node b) = a"
        by simp_all
      have le: "startHeight \<le> last_height"
      proof (rule ccontr)
        assume "\<not> startHeight \<le> last_height"
        then have "[startHeight..<Suc last_height] = []" by simp
        then have "?all = []" by (simp only: list.map concat.simps)
        with all have "processCandidates node [] ?init = Inr st" by (simp only:)
        then have "st = ?init" by simp
        with ba show False by simp
      qed
      let ?rest = "concat (map (getblocksbyheight node) [Suc startHeight..<Suc last_height])"
      from le have "[startHeight..<Suc last_height] = startHeight # [Suc startHeight..<Suc last_height]"
        by (simp add: upt_conv_Cons del: upt_Suc)
      then have split: "?all = getblocksbyheight node startHeight @ ?rest"
        by (simp only: list.map concat.simps)
      from all obtain s0
        where first: "processCandidates node (getblocksbyheight node startHeight) ?init = Inr s0"
          and second: "processCandidates node ?rest s0 = Inr st"
        unfolding split processCandidates_append by (auto split: sum.splits)
      have none_b: "prevs s0 b = None"
      proof (rule ccontr)
        assume "prevs s0 b \<noteq> None"
        then obtain q where q: "prevs s0 b = Some q" by auto
        have "prevs ?init b = None" by simp
        from prevs_origin [OF first this q]
        have "b \<in> set (getblocksbyheight node startHeight)" by blast
        from listed [OF this] hb show False by simp
      qed
      from prevs_origin [OF second none_b ba] pb have "a \<notin> set (invalid s0)" by simp
      moreover from processed_settled [OF first start] a
      have "a \<in> set (invalid s0) \<or> prevs s0 a \<noteq> None" by simp
      ultimately have "prevs s0 a \<noteq> None" by simp
      from prevs_dom_grows [OF second this] a show ?thesis by simp
    qed
  qed
  then obtain q where "prevs st ?c0 = Some q" by auto
  with entry [OF this] have e0: "prevs st ?c0 = Some ?p" by simp
  have root: "prevs st ?p = None"
  proof (rule ccontr)
    assume "prevs st ?p \<noteq> None"
    then obtain r where "prevs st ?p = Some r" by auto
    from entry [OF this] c0(3) show False by simp
  qed
  from ne obtain c rest where cr: "chain = c # rest" by (cases chain) auto
  have linked': "lineage (prevs st) (?p # chain)"
    using linked e0 by (simp add: cr)
  have hashes: "[] \<notin> set (butlast (?p # chain))"
  proof
    assume "[] \<in> set (butlast (?p # chain))"
    with ne c0(2) have "[] \<in> set (butlast chain)" by auto
    from lineage_parents [OF linked this] obtain y where "prevs st y = Some []" by auto
    from entry [OF this] show False by simp
  qed
  have sel: "selectBest st = Some (Inr (?p # chain, invalid st))
             \<and> count_list (?p # chain) (hash T2) = 1"
    using ne tip by (intro selectBest_of_lineage [OF best linked' _ _ hashes]) (simp_all add: root)
  have up: "height (getblock node y) = Suc (height (getblock node x))"
    if "prevs st y = Some x" for y x
    using entry [OF that] by simp
  from lineage_heights [of "prevs st" "\<lambda>x. height (getblock node x)" chain, OF up linked]
  have "height (getblock node (hash T2)) + 1 = startHeight + length chain"
    by (simp add: tip c0(1))
  with T2 hk2 have "height T2 + 1 = startHeight + length chain" by simp
  moreover from ne obtain n where "length chain = Suc n" by (cases chain) auto
  ultimately have len: "length (?p # chain) = height T2 - startHeight + 2" by simp
  from sel e0 root len linked' tip ne show ?thesis by simp
qed

lemma ex_full_block:
  "hash (ex_full_getblock h) = h"
  "validateBlock (ex_full_getblock h) = Inr True"
  "prev (ex_full_getblock ''s5'') = ''s4''" "prev (ex_full_getblock ''t1'') = ''s4''"
  "prev (ex_full_getblock ''s6'') = ''s5''" "prev (ex_full_getblock ''t2'') = ''s6''"
  "height (ex_full_getblock ''s5'') = 5" "height (ex_full_getblock ''t1'') = 5"
  "height (ex_full_getblock ''s6'') = 6" "height (ex_full_getblock ''t2'') = 7"
  "height (ex_full_getblock ''s4'') = 4"
  by (simp_all add: ex_full_getblock_def validateBlock_def getSubsidy_def ex_coinbase_def
        drop_bit_eq_div)

lemma ex_full_fields:
  "tips ex_full_final = [(''t1'', ex_full_getblock ''t1''), (''t2'', ex_full_getblock ''t2'')]"
  "prevs ex_full_final
     = [''s5'' \<mapsto> ''s4'', ''t1'' \<mapsto> ''s4'', ''s6'' \<mapsto> ''s5'', ''t2'' \<mapsto> ''s6'']"
  "invalid ex_full_final = []"
  by (simp_all add: ex_full_final_def)

lemma ex_full_scan:
  "scan ex_full_node 5 7 \<lparr>tips = [], prevs = Map.empty, invalid = []\<rparr> = Inr ex_full_final"
proof -
  have u: "[5..<Suc 7] = [5, 6, 7]" by (simp add: upt_rec)
  show ?thesis
    unfolding scan_as_candidates u
    by (simp add: ex_full_node_def processCandidate_def ex_full_block ex_full_final_def)
qed

lemma ex_full_well_formed: "well_formed_node ex_full_node"
  by (auto simp: well_formed_node_def ex_full_node_def ex_full_getblock_def split: if_splits)

lemma ex_full_selectBest:
  "selectBest ex_full_final = Some (Inr ([''s4'', ''s5'', ''s6'', ''t2''], []))"
  by (simp add: selectBest_def reduce_def higher_def walk.simps ex_full_fields ex_full_block)

text \<open>
  On \<open>ex_full_node\<close>, scanned from height 5: the tips are \<open>t1\<close> at height 5 and \<open>t2\<close> at
  height 7, the parent index links \<open>t2\<close> back to \<open>s5\<close> at height 5, \<open>s5\<close> has a
  parent entry, and \<open>valid\<close> has four elements, not \<open>7 - 5 + 1\<close>.
\<close>

theorem scan_lineage_not_from_start:
  "scan ex_full_node 5 7 \<lparr>tips = [], prevs = Map.empty, invalid = []\<rparr> = Inr ex_full_final
   \<and> map snd (tips ex_full_final) = [ex_full_getblock ''t1'', ex_full_getblock ''t2'']
   \<and> height (ex_full_getblock ''t1'') = 5
   \<and> height (ex_full_getblock ''t2'') = 7
   \<and> lineage (prevs ex_full_final) [''s5'', ''s6'', ''t2'']
   \<and> height (ex_full_getblock ''s5'') = 5
   \<and> prevs ex_full_final ''s5'' \<noteq> None
   \<and> selectBest ex_full_final = Some (Inr ([''s4'', ''s5'', ''s6'', ''t2''], []))
   \<and> length [''s4'', ''s5'', ''s6'', ''t2''] \<noteq> height (ex_full_getblock ''t2'') - 5 + 1"
  by (simp add: ex_full_scan ex_full_selectBest ex_full_fields ex_full_block)

theorem scan_lineage_starts_below_witness:
  "well_formed_node ex_full_node
   \<and> scan ex_full_node 5 7 \<lparr>tips = [], prevs = Map.empty, invalid = []\<rparr> = Inr ex_full_final
   \<and> ''s5'' \<in> set (getblocksbyheight ex_full_node 5)
   \<and> prev (getblock ex_full_node ''s5'') = ''s4''
   \<and> prevs ex_full_final ''s5'' = Some ''s4''
   \<and> prevs ex_full_final ''s4'' = None
   \<and> selectBest ex_full_final = Some (Inr ([''s4'', ''s5'', ''s6'', ''t2''], []))
   \<and> length [''s4'', ''s5'', ''s6'', ''t2''] = height (ex_full_getblock ''t2'') - 5 + 2"
proof -
  have g: "getblock ex_full_node = ex_full_getblock"
    by (simp add: ex_full_node_def)
  have two: "map snd (tips ex_full_final) = [ex_full_getblock ''t1'', ex_full_getblock ''t2'']
             \<or> map snd (tips ex_full_final) = [ex_full_getblock ''t2'', ex_full_getblock ''t1'']"
    by (simp add: ex_full_fields)
  have linked: "lineage (prevs ex_full_final) [''s5'', ''s6'', ''t2'']"
    by (simp add: ex_full_fields)
  have tip: "last [''s5'', ''s6'', ''t2''] = hash (ex_full_getblock ''t2'')"
    by (simp add: ex_full_block)
  have start: "hd [''s5'', ''s6'', ''t2''] \<in> set (getblocksbyheight ex_full_node 5)"
    by (simp add: ex_full_node_def)
  from scan_lineage_starts_below
         [OF ex_full_well_formed ex_full_scan two ex_full_block(8) ex_full_block(10)
             linked tip start]
  have "selectBest ex_full_final = Some (Inr ([''s4'', ''s5'', ''s6'', ''t2''], []))
        \<and> prevs ex_full_final ''s5'' = Some ''s4''
        \<and> prevs ex_full_final ''s4'' = None
        \<and> length [''s4'', ''s5'', ''s6'', ''t2''] = height (ex_full_getblock ''t2'') - 5 + 2"
    by (simp add: g ex_full_block ex_full_fields)
  with ex_full_well_formed ex_full_scan start show ?thesis
    by (simp add: g ex_full_block)
qed

text \<open>
  Claim C9. With no tip left, the selection phase raises (\<open>reduce\<close> of an empty array
  without initial value is a TypeError): \<open>showtime\<close> returns no result, and in particular
  no empty \<open>valid\<close> sequence.
\<close>

theorem empty_tips_is_fatal:
  "(tips st = [] \<longrightarrow> selectBest st = Some (Inl TypeError))
   \<and> (scan node 6929851 (getinfo_blocks node) \<lparr>tips = [], prevs = Map.empty, invalid = []\<rparr>
        = Inr st \<and> tips st = []
      \<longrightarrow> showtime node = Some (Inl TypeError))"
  by (simp add: showtime_def selectBest_def reduce_def)

lemma upt_start: "[6929851..<Suc 6929851] = [6929851]" "[6929851..<Suc 6929853] = [6929851, 6929852, 6929853]"
  by (simp_all add: upt_rec)

lemma ex_bad_scan:
  "scan ex_bad_node 6929851 (getinfo_blocks ex_bad_node)
     \<lparr>tips = [], prevs = Map.empty, invalid = []\<rparr>
   = Inr \<lparr>tips = [], prevs = Map.empty, invalid = [''x'']\<rparr>"
  by (simp add: scan_as_candidates ex_bad_node_def upt_start processCandidate_rejects ex_validate rejected_def del: upt_Suc)

theorem empty_tips_is_fatal_witness:
  "scan ex_bad_node 6929851 (getinfo_blocks ex_bad_node)
     \<lparr>tips = [], prevs = Map.empty, invalid = []\<rparr>
   = Inr \<lparr>tips = [], prevs = Map.empty, invalid = [''x'']\<rparr>
   \<and> showtime ex_bad_node = Some (Inl TypeError)"
  using empty_tips_is_fatal [of "\<lparr>tips = [], prevs = Map.empty, invalid = [''x'']\<rparr>" ex_bad_node]
    ex_bad_scan
  by simp

text \<open>
  The whole of \<open>showtime\<close> on the example node. Every accepted block gets an entry in
  \<open>prevs\<close>, also the first one scanned, so the walk goes one step below the scanned
  range: \<open>valid\<close> starts with \<open>g\<close>, the parent of the first block.
\<close>

lemma ex_showtime:
  "showtime ex_node = Some (Inr ([''g'', ''a'', ''b1'', ''c''], [''x'', ''y'']))"
proof -
  have v: "validateBlock (getblock ex_node h) = validateBlock (ex_getblock h)" for h
    by (simp add: ex_getblock_node)
  have sc: "scan ex_node 6929851 (getinfo_blocks ex_node)
          \<lparr>tips = [], prevs = Map.empty, invalid = []\<rparr>
        = Inr \<lparr>tips = [(''b2'', ex_getblock ''b2''), (''c'', ex_getblock ''c'')],
               prevs = [''a'' \<mapsto> ''g'', ''b1'' \<mapsto> ''a'', ''b2'' \<mapsto> ''a'', ''c'' \<mapsto> ''b1''],
               invalid = [''x'', ''y'']\<rparr>"
    unfolding scan_as_candidates
    by (simp add: ex_node_def upt_start processCandidate_def ex_validate ex_prev ex_hash del: upt_Suc)
  show ?thesis
    unfolding showtime_def sc
    by (simp add: selectBest_def reduce_def higher_def walk.simps ex_getblock_def)
qed

section \<open>The order of the candidates of one height\<close>

lemma processCandidates_fold:
  "processCandidates node cs st = fold (step_state node) cs (Inr st)"
proof -
  have inl: "fold (step_state node) cs (Inl e) = Inl e" for cs e
    by (induction cs) (simp_all add: step_state_def)
  show ?thesis
    by (induction cs arbitrary: st) (simp_all add: step_state_def inl split: sum.split)
qed

lemma step_simulation:
  "map_sum id contents_of (step_state node h r) = step_contents node h (map_sum id contents_of r)"
proof (cases r)
  case (Inl e)
  then show ?thesis by (simp add: step_state_def step_contents_def)
next
  case (Inr st)
  show ?thesis
    unfolding Inr
    by (cases "validateBlock (getblock node h)")
       (simp_all add: step_state_def step_contents_def contents_of_def verdict_def
          processCandidate_cases Let_def accepted_fields rejected_fields)
qed

lemma fold_simulation:
  "map_sum id contents_of (fold (step_state node) cs r)
     = fold (step_contents node) cs (map_sum id contents_of r)"
  by (induction cs arbitrary: r) (simp_all add: step_simulation)

lemma verdict_insert:
  "prev (getblock node x) \<noteq> y \<Longrightarrow> verdict node x (insert y I) = verdict node x I"
  by (simp add: verdict_def)

lemma step_contents_commute:
  assumes xy: "x \<noteq> y"
    and hx: "hash (getblock node x) = x" and hy: "hash (getblock node y) = y"
    and px: "prev (getblock node x) \<noteq> y" "prev (getblock node x) \<noteq> x"
    and py: "prev (getblock node y) \<noteq> x" "prev (getblock node y) \<noteq> y"
  shows "step_contents node x (step_contents node y r)
       = step_contents node y (step_contents node x r)"
proof (cases r)
  case (Inl e)
  then show ?thesis by (simp add: step_contents_def)
next
  case (Inr c)
  obtain T P I where c: "c = (T, P, I)" by (cases c)
  have e: "(e1::error) = e2" for e1 e2 by (cases e1, cases e2) simp
  have vx: "verdict node x (insert y I) = verdict node x I"
    using px(1) by (rule verdict_insert)
  have vy: "verdict node y (insert x I) = verdict node y I"
    using py(1) by (rule verdict_insert)
  have upd: "T(prev (getblock node y) := None, y \<mapsto> bz,
               prev (getblock node x) := None, x \<mapsto> bx)
           = T(prev (getblock node x) := None, x \<mapsto> bx,
               prev (getblock node y) := None, y \<mapsto> bz)" for bx bz
    using xy px py by (auto simp: fun_eq_iff)
  have updP: "P(y \<mapsto> q, x \<mapsto> p) = P(x \<mapsto> p, y \<mapsto> q)" for p q
    using xy by (auto simp: fun_eq_iff)
  show ?thesis
  proof (cases "verdict node x I")
    case xl: (Inl ex)
    show ?thesis
      by (cases "verdict node y I")
         (auto simp: Inr c step_contents_def xl vx e)
  next
    case xr: (Inr okx)
    show ?thesis
    proof (cases "verdict node y I")
      case yl: (Inl ey)
      show ?thesis by (auto simp: Inr c step_contents_def xr yl vy e)
    next
      case yr: (Inr oky)
      show ?thesis
        by (cases okx; cases oky)
           (simp_all add: Inr c step_contents_def xr yr vx vy hx hy upd updP insert_commute)
    qed
  qed
qed

text \<open>
  Claim C8. Let \<open>cs\<close> be the candidates of one height: the node returns for each of them
  the block of that hash, and no candidate has another candidate of the list (or itself)
  as parent, the parents having been settled at earlier heights. Then for every
  permutation \<open>cs'\<close> of \<open>cs\<close> and every starting state: if processing \<open>cs\<close> succeeds,
  processing \<open>cs'\<close> succeeds with the same \<open>tips\<close> mapping, the same parent index and the
  same set of invalid hashes; and if processing \<open>cs\<close> raises, so does processing \<open>cs'\<close>.
\<close>

theorem candidate_order_irrelevant:
  assumes perm: "mset cs' = mset cs"
    and coherent: "\<forall>h\<in>set cs. hash (getblock node h) = h"
    and settled: "\<forall>h\<in>set cs. prev (getblock node h) \<notin> set cs"
  shows "(\<forall>s. processCandidates node cs st = Inr s \<longrightarrow>
            (\<exists>s'. processCandidates node cs' st = Inr s'
                 \<and> map_of (tips s') = map_of (tips s)
                 \<and> prevs s' = prevs s
                 \<and> set (invalid s') = set (invalid s)))
       \<and> (\<forall>e. processCandidates node cs st = Inl e \<longrightarrow> processCandidates node cs' st = Inl e)"
proof -
  have comm: "step_contents node x \<circ> step_contents node y
            = step_contents node y \<circ> step_contents node x"
    if "x \<in> set cs" "y \<in> set cs" for x y
  proof (cases "x = y")
    case True
    then show ?thesis by simp
  next
    case False
    from that coherent settled
    have "step_contents node x (step_contents node y r)
        = step_contents node y (step_contents node x r)" for r
      by (intro step_contents_commute [OF False]) auto
    then show ?thesis by (simp add: fun_eq_iff)
  qed
  have "fold (step_contents node) cs = fold (step_contents node) cs'"
    by (rule fold_multiset_equiv [OF comm]) (simp_all add: perm)
  then have eq: "map_sum id contents_of (processCandidates node cs' st)
            = map_sum id contents_of (processCandidates node cs st)"
    by (simp add: processCandidates_fold fold_simulation)
  show ?thesis
  proof (cases "processCandidates node cs st")
    case (Inl e)
    with eq show ?thesis by (cases "processCandidates node cs' st") simp_all
  next
    case (Inr s)
    with eq show ?thesis
      by (cases "processCandidates node cs' st") (simp_all add: contents_of_def)
  qed
qed

theorem candidate_order_irrelevant_witness:
  "mset [''b2'', ''x'', ''b1''] = mset [''b1'', ''x'', ''b2'']
   \<and> processCandidates ex_node [''b1'', ''x'', ''b2''] ex_state_a
       = Inr \<lparr>tips = [(''b1'', ex_getblock ''b1''), (''b2'', ex_getblock ''b2'')],
              prevs = [''a'' \<mapsto> ''g'', ''b1'' \<mapsto> ''a'', ''b2'' \<mapsto> ''a''],
              invalid = [''x'']\<rparr>
   \<and> (\<exists>s'. processCandidates ex_node [''b2'', ''x'', ''b1''] ex_state_a = Inr s'
          \<and> map_of (tips s') = map_of [(''b1'', ex_getblock ''b1''), (''b2'', ex_getblock ''b2'')]
          \<and> prevs s' = [''a'' \<mapsto> ''g'', ''b1'' \<mapsto> ''a'', ''b2'' \<mapsto> ''a'']
          \<and> set (invalid s') = {''x''})"
proof -
  have p: "mset [''b2'', ''x'', ''b1''] = mset [''b1'', ''x'', ''b2'']"
    by simp
  have run: "processCandidates ex_node [''b1'', ''x'', ''b2''] ex_state_a
       = Inr \<lparr>tips = [(''b1'', ex_getblock ''b1''), (''b2'', ex_getblock ''b2'')],
              prevs = [''a'' \<mapsto> ''g'', ''b1'' \<mapsto> ''a'', ''b2'' \<mapsto> ''a''],
              invalid = [''x'']\<rparr>"
    by (simp add: processCandidate_def ex_getblock_node ex_validate ex_prev ex_hash
          ex_state_a_def)
  have c: "\<forall>h\<in>set [''b1'', ''x'', ''b2'']. hash (getblock ex_node h) = h"
    by (simp add: ex_getblock_node ex_hash)
  have s: "\<forall>h\<in>set [''b1'', ''x'', ''b2'']. prev (getblock ex_node h) \<notin> set [''b1'', ''x'', ''b2'']"
    by (simp add: ex_getblock_node ex_prev)
  from candidate_order_irrelevant [OF p c s, of ex_state_a] run p show ?thesis
    by simp
qed

end
